theory Spec2Isabelle
  imports Complex_Main
begin

section \<open>Scores: Python floats with the two infinities\<close>

text \<open>
  The search only compares scores and starts its running best at \<open>float("-inf")\<close> or
  \<open>float("inf")\<close>; the evaluators add, subtract and scale finite numbers. A score is
  therefore an extended real: the finite values are read as exact reals (rounding of the
  binary representation is not modelled, and a NaN is not a score).
\<close>

datatype xreal = NegInf | Fin real | PosInf

instantiation xreal :: linorder
begin

fun less_eq_xreal :: "xreal \<Rightarrow> xreal \<Rightarrow> bool" where
  "less_eq_xreal NegInf y = True"
| "less_eq_xreal (Fin a) NegInf = False"
| "less_eq_xreal (Fin a) (Fin b) = (a \<le> b)"
| "less_eq_xreal (Fin a) PosInf = True"
| "less_eq_xreal PosInf NegInf = False"
| "less_eq_xreal PosInf (Fin b) = False"
| "less_eq_xreal PosInf PosInf = True"

definition less_xreal :: "xreal \<Rightarrow> xreal \<Rightarrow> bool" where
  "less_xreal x y = (x \<le> y \<and> \<not> y \<le> x)"

instance
proof
  fix x y z :: xreal
  show "(x < y) = (x \<le> y \<and> \<not> y \<le> x)" by (simp add: less_xreal_def)
  show "x \<le> x" by (cases x) simp_all
  show "x \<le> y \<Longrightarrow> y \<le> z \<Longrightarrow> x \<le> z" by (cases x; cases y; cases z) simp_all
  show "x \<le> y \<Longrightarrow> y \<le> x \<Longrightarrow> x = y" by (cases x; cases y) simp_all
  show "x \<le> y \<or> y \<le> x" by (cases x; cases y) auto
qed

end

section \<open>Moves, exceptions and the board interface\<close>

type_synonym move = "int \<times> int"

text \<open>
  \<open>Timeout\<close> is the exception class of the module; \<open>IndexError\<close> is what Python raises
  for \<open>xs[0]\<close> and for \<open>random.choice(xs)\<close> on an empty sequence.
\<close>

datatype error = Timeout | IndexError

text \<open>
  The board class lives outside the module. The agent only calls the methods below, so
  a board is taken as a parameter: a record of these operations over a state type \<open>'g\<close>
  and a player type \<open>'p\<close>. \<open>last_player_move\<close> stands for the dictionary
  \<open>game.__last_player_move__\<close>, and \<open>game.get_legal_moves()\<close> without an argument
  lists the moves of the active player.
\<close>

record ('g, 'p) board =
  width :: "'g \<Rightarrow> int"
  height :: "'g \<Rightarrow> int"
  active_player :: "'g \<Rightarrow> 'p"
  inactive_player :: "'g \<Rightarrow> 'p"
  get_opponent :: "'g \<Rightarrow> 'p \<Rightarrow> 'p"
  get_legal_moves :: "'g \<Rightarrow> 'p \<Rightarrow> move list"
  forecast_move :: "'g \<Rightarrow> move \<Rightarrow> 'g"
  is_winner :: "'g \<Rightarrow> 'p \<Rightarrow> bool"
  is_loser :: "'g \<Rightarrow> 'p \<Rightarrow> bool"
  utility :: "'g \<Rightarrow> 'p \<Rightarrow> xreal"
  get_player_location :: "'g \<Rightarrow> 'p \<Rightarrow> int \<times> int"
  last_player_move :: "'g \<Rightarrow> 'p \<Rightarrow> move"

definition legal_moves_now :: "('g, 'p) board \<Rightarrow> 'g \<Rightarrow> move list" where
  "legal_moves_now B game = get_legal_moves B game (active_player B game)"

section \<open>The three evaluators\<close>

definition attacking_score :: "('g, 'p) board \<Rightarrow> 'g \<Rightarrow> 'p \<Rightarrow> xreal" where
  "attacking_score B game player =
     (if is_loser B game player then NegInf
      else if is_winner B game player then PosInf
      else Fin (- real (length (get_legal_moves B game (get_opponent B game player)))))"

definition deeper_score :: "('g, 'p) board \<Rightarrow> 'g \<Rightarrow> 'p \<Rightarrow> xreal" where
  "deeper_score B game player =
     (if is_loser B game player then NegInf
      else if is_winner B game player then PosInf
      else Fin (real_of_int
        (fold (\<lambda>mv score.
                 score
                 + int (length (get_legal_moves B (forecast_move B game mv) player))
                 - int (length (get_legal_moves B (forecast_move B game mv)
                          (get_opponent B (forecast_move B game mv) player))))
              (get_legal_moves B game player) 0)))"

definition custom_score :: "('g, 'p) board \<Rightarrow> 'g \<Rightarrow> 'p \<Rightarrow> xreal" where
  "custom_score B game player =
     (if is_loser B game player then NegInf
      else if is_winner B game player then PosInf
      else
        (let score = real (length (get_legal_moves B game player))
                     - real (length (get_legal_moves B game (get_opponent B game player)));
             center_x = real_of_int (width B game) / 2;
             center_y = real_of_int (height B game) / 2;
             (row, col) = get_player_location B game player;
             score1 = score - \<bar>real_of_int row - center_x\<bar> * (1 / 10);
             score2 = score1 - \<bar>real_of_int col - center_y\<bar> * (1 / 10)
         in Fin score2))"

section \<open>The agent\<close>

text \<open>
  The fields of \<open>CustomPlayer\<close>. \<open>self_id\<close> is the object itself where the code passes
  \<open>self\<close> to the board as a player; \<open>score_fn\<close> is \<open>self.score\<close> and
  \<open>search_method\<close> is \<open>self.method\<close>. The depth is a
  natural number: the constructor documents a strictly positive integer and iterative
  deepening counts up from 0.
\<close>

record ('g, 'p) custom_player =
  self_id :: 'p
  search_depth :: nat
  score_fn :: "'g \<Rightarrow> 'p \<Rightarrow> xreal"
  iterative :: bool
  search_method :: string
  TIMER_THRESHOLD :: real

text \<open>
  \<open>time_left\<close> is a callable without arguments; its successive answers are a sequence,
  \<open>time_left k\<close> being the answer to call number \<open>k\<close>. The state threaded through the
  search is the number of calls made so far, so the difference of two clock values counts
  the search invocations between them (each invocation asks exactly once).
\<close>

type_synonym search_result = "(error + xreal \<times> move) \<times> nat"

subsection \<open>minimax\<close>

fun minimax_max_loop ::
  "(move \<Rightarrow> nat \<Rightarrow> search_result) \<Rightarrow> move list \<Rightarrow> xreal \<Rightarrow> move \<Rightarrow> nat \<Rightarrow> search_result" where
  "minimax_max_loop child [] best_score best_move clk = (Inr (best_score, best_move), clk)"
| "minimax_max_loop child (mv # rest) best_score best_move clk =
     (case child mv clk of
        (Inl e, clk') \<Rightarrow> (Inl e, clk')
      | (Inr (score, new_move), clk') \<Rightarrow>
          if score > best_score then minimax_max_loop child rest score mv clk'
          else minimax_max_loop child rest best_score best_move clk')"

fun minimax_min_loop ::
  "(move \<Rightarrow> nat \<Rightarrow> search_result) \<Rightarrow> move list \<Rightarrow> xreal \<Rightarrow> move \<Rightarrow> nat \<Rightarrow> search_result" where
  "minimax_min_loop child [] best_score best_move clk = (Inr (best_score, best_move), clk)"
| "minimax_min_loop child (mv # rest) best_score best_move clk =
     (case child mv clk of
        (Inl e, clk') \<Rightarrow> (Inl e, clk')
      | (Inr (score, new_move), clk') \<Rightarrow>
          if score < best_score then minimax_min_loop child rest score mv clk'
          else minimax_min_loop child rest best_score best_move clk')"

fun minimax ::
  "('g, 'p) custom_player \<Rightarrow> ('g, 'p) board \<Rightarrow> (nat \<Rightarrow> real) \<Rightarrow>
   'g \<Rightarrow> nat \<Rightarrow> bool \<Rightarrow> nat \<Rightarrow> search_result" where
  "minimax A B time_left game 0 maximizing_player clk =
     (if time_left clk < TIMER_THRESHOLD A then (Inl Timeout, Suc clk)
      else (Inr (score_fn A game (self_id A),
                 last_player_move B game (inactive_player B game)), Suc clk))"
| "minimax A B time_left game (Suc d) maximizing_player clk =
     (if time_left clk < TIMER_THRESHOLD A then (Inl Timeout, Suc clk)
      else if utility B game (self_id A) \<noteq> Fin 0 then
        (Inr (score_fn A game (self_id A),
              last_player_move B game (inactive_player B game)), Suc clk)
      else
        (case legal_moves_now B game of
           [] \<Rightarrow> (Inl IndexError, Suc clk)
         | first_move # others \<Rightarrow>
             if maximizing_player then
               minimax_max_loop
                 (\<lambda>mv. minimax A B time_left (forecast_move B game mv) d (\<not> maximizing_player))
                 (first_move # others) NegInf first_move (Suc clk)
             else
               minimax_min_loop
                 (\<lambda>mv. minimax A B time_left (forecast_move B game mv) d (\<not> maximizing_player))
                 (first_move # others) PosInf first_move (Suc clk)))"

subsection \<open>alphabeta\<close>

fun alphabeta_max_loop ::
  "(move \<Rightarrow> xreal \<Rightarrow> xreal \<Rightarrow> nat \<Rightarrow> search_result) \<Rightarrow> move list \<Rightarrow>
   xreal \<Rightarrow> xreal \<Rightarrow> xreal \<Rightarrow> move \<Rightarrow> nat \<Rightarrow> search_result" where
  "alphabeta_max_loop child [] alpha beta best_score best_move clk =
     (Inr (best_score, best_move), clk)"
| "alphabeta_max_loop child (mv # rest) alpha beta best_score best_move clk =
     (case child mv alpha beta clk of
        (Inl e, clk') \<Rightarrow> (Inl e, clk')
      | (Inr (score, new_move), clk') \<Rightarrow>
          (let best_score' = (if score > best_score then score else best_score);
               best_move' = (if score > best_score then mv else best_move)
           in if best_score' \<ge> beta then (Inr (best_score', best_move'), clk')
              else alphabeta_max_loop child rest (max alpha best_score') beta
                     best_score' best_move' clk'))"

fun alphabeta_min_loop ::
  "(move \<Rightarrow> xreal \<Rightarrow> xreal \<Rightarrow> nat \<Rightarrow> search_result) \<Rightarrow> move list \<Rightarrow>
   xreal \<Rightarrow> xreal \<Rightarrow> xreal \<Rightarrow> move \<Rightarrow> nat \<Rightarrow> search_result" where
  "alphabeta_min_loop child [] alpha beta best_score best_move clk =
     (Inr (best_score, best_move), clk)"
| "alphabeta_min_loop child (mv # rest) alpha beta best_score best_move clk =
     (case child mv alpha beta clk of
        (Inl e, clk') \<Rightarrow> (Inl e, clk')
      | (Inr (score, new_move), clk') \<Rightarrow>
          (let best_score' = (if score < best_score then score else best_score);
               best_move' = (if score < best_score then mv else best_move)
           in if best_score' \<le> alpha then (Inr (best_score', best_move'), clk')
              else alphabeta_min_loop child rest alpha (min beta best_score')
                     best_score' best_move' clk'))"

fun alphabeta ::
  "('g, 'p) custom_player \<Rightarrow> ('g, 'p) board \<Rightarrow> (nat \<Rightarrow> real) \<Rightarrow>
   'g \<Rightarrow> nat \<Rightarrow> xreal \<Rightarrow> xreal \<Rightarrow> bool \<Rightarrow> nat \<Rightarrow> search_result" where
  "alphabeta A B time_left game 0 alpha beta maximizing_player clk =
     (if time_left clk < TIMER_THRESHOLD A then (Inl Timeout, Suc clk)
      else (Inr (score_fn A game (self_id A),
                 last_player_move B game (inactive_player B game)), Suc clk))"
| "alphabeta A B time_left game (Suc d) alpha beta maximizing_player clk =
     (if time_left clk < TIMER_THRESHOLD A then (Inl Timeout, Suc clk)
      else if utility B game (self_id A) \<noteq> Fin 0 then
        (Inr (score_fn A game (self_id A),
              last_player_move B game (inactive_player B game)), Suc clk)
      else
        (case legal_moves_now B game of
           [] \<Rightarrow> (Inl IndexError, Suc clk)
         | first_move # others \<Rightarrow>
             if maximizing_player then
               alphabeta_max_loop
                 (\<lambda>mv a b. alphabeta A B time_left (forecast_move B game mv) d a b
                              (\<not> maximizing_player))
                 (first_move # others) alpha beta NegInf first_move (Suc clk)
             else
               alphabeta_min_loop
                 (\<lambda>mv a b. alphabeta A B time_left (forecast_move B game mv) d a b
                              (\<not> maximizing_player))
                 (first_move # others) alpha beta PosInf first_move (Suc clk)))"

subsection \<open>get_move\<close>

text \<open>
  \<open>random.choice(seq)\<close>: \<open>rnd\<close> is the number the generator draws; every element of a
  non-empty sequence is the choice for some \<open>rnd\<close>, and an empty one raises.
\<close>

definition random_choice :: "nat \<Rightarrow> 'a list \<Rightarrow> error + 'a" where
  "random_choice rnd seq =
     (if seq = [] then Inl IndexError else Inr (seq ! (rnd mod length seq)))"

text \<open>
  One pass through the two \<open>if self.method == ...\<close> statements at a given depth. The
  result is either the new \<open>best_move\<close>, or the exception raised together with the value
  \<open>best_move\<close> has at that moment (the assignment \<open>score, best_move = ...\<close> does not
  happen when the call raises).
\<close>

definition run_search ::
  "('g, 'p) custom_player \<Rightarrow> ('g, 'p) board \<Rightarrow> (nat \<Rightarrow> real) \<Rightarrow>
   'g \<Rightarrow> nat \<Rightarrow> move \<Rightarrow> nat \<Rightarrow> (error \<times> move + move) \<times> nat" where
  "run_search A B time_left game depth best_move clk =
     (case (if search_method A = ''minimax'' then
              (case minimax A B time_left game depth True clk of
                 (Inl e, clk') \<Rightarrow> (Inl (e, best_move), clk')
               | (Inr (score, new_best), clk') \<Rightarrow> (Inr new_best, clk'))
            else (Inr best_move, clk)) of
        (Inl raised, clk') \<Rightarrow> (Inl raised, clk')
      | (Inr best_move', clk') \<Rightarrow>
          if search_method A = ''alphabeta'' then
            (case alphabeta A B time_left game depth NegInf PosInf True clk' of
               (Inl e, clk'') \<Rightarrow> (Inl (e, best_move'), clk'')
             | (Inr (score, new_best), clk'') \<Rightarrow> (Inr new_best, clk''))
          else (Inr best_move', clk'))"

text \<open>
  The \<open>while True\<close> loop of iterative deepening. It is left only by an exception, so a
  run that never raises has no result: \<open>None\<close>.
\<close>

partial_function (option) iterative_deepening ::
  "('g, 'p) custom_player \<Rightarrow> ('g, 'p) board \<Rightarrow> (nat \<Rightarrow> real) \<Rightarrow>
   'g \<Rightarrow> nat \<Rightarrow> move \<Rightarrow> nat \<Rightarrow> ((error \<times> move) \<times> nat) option" where
  "iterative_deepening A B time_left game depth best_move clk =
     (case run_search A B time_left game depth best_move clk of
        (Inl raised, clk') \<Rightarrow> Some (raised, clk')
      | (Inr best_move', clk') \<Rightarrow>
          iterative_deepening A B time_left game (depth + 1) best_move' clk')"

text \<open>\<open>except Timeout: return best_move\<close>; any other exception leaves \<open>get_move\<close>.\<close>

fun except_Timeout :: "error \<times> move \<Rightarrow> error + move" where
  "except_Timeout (Timeout, best_move) = Inr best_move"
| "except_Timeout (IndexError, best_move) = Inl IndexError"

definition get_move ::
  "('g, 'p) custom_player \<Rightarrow> ('g, 'p) board \<Rightarrow> (nat \<Rightarrow> real) \<Rightarrow> nat \<Rightarrow>
   'g \<Rightarrow> move list \<Rightarrow> nat \<Rightarrow> ((error + move) \<times> nat) option" where
  "get_move A B time_left rnd game legal_moves clk =
     (if length legal_moves = 0 then Some (Inr (-1, -1), clk)
      else
        (case random_choice rnd (legal_moves_now B game) of
           Inl e \<Rightarrow> Some (Inl e, clk)
         | Inr best_move \<Rightarrow>
             if iterative A then
               (case iterative_deepening A B time_left game 0 best_move clk of
                  None \<Rightarrow> None
                | Some (raised, clk') \<Rightarrow> Some (except_Timeout raised, clk'))
             else
               (case run_search A B time_left game (search_depth A) best_move clk of
                  (Inl raised, clk') \<Rightarrow> Some (except_Timeout raised, clk')
                | (Inr best_move', clk') \<Rightarrow> Some (Inr best_move', clk'))))"

section \<open>The deepest completed depth\<close>

text \<open>
  The state of the iterative loop after the searches at depths \<open>0, ..., n - 1\<close> have
  all returned: the adopted move and the clock, or \<open>None\<close> when one of them raised.
\<close>

primrec after_completed_depths ::
  "('g, 'p) custom_player \<Rightarrow> ('g, 'p) board \<Rightarrow> (nat \<Rightarrow> real) \<Rightarrow>
   'g \<Rightarrow> nat \<Rightarrow> move \<Rightarrow> nat \<Rightarrow> (move \<times> nat) option" where
  "after_completed_depths A B time_left game 0 best_move clk = Some (best_move, clk)"
| "after_completed_depths A B time_left game (Suc n) best_move clk =
     (case after_completed_depths A B time_left game n best_move clk of
        None \<Rightarrow> None
      | Some (adopted, clk') \<Rightarrow>
          (case run_search A B time_left game n adopted clk' of
             (Inl raised, clk'') \<Rightarrow> None
           | (Inr best_move', clk'') \<Rightarrow> Some (best_move', clk'')))"

section \<open>The centre penalty as the specification words it\<close>

text \<open>
  The specification's reading of the third evaluator: the row is measured against half
  the height and the column against half the width.
\<close>

definition custom_score_spec :: "('g, 'p) board \<Rightarrow> 'g \<Rightarrow> 'p \<Rightarrow> xreal" where
  "custom_score_spec B game player =
     (if is_loser B game player then NegInf
      else if is_winner B game player then PosInf
      else
        (let (row, col) = get_player_location B game player
         in Fin (real (length (get_legal_moves B game player))
                 - real (length (get_legal_moves B game (get_opponent B game player)))
                 - \<bar>real_of_int row - real_of_int (height B game) / 2\<bar> * (1 / 10)
                 - \<bar>real_of_int col - real_of_int (width B game) / 2\<bar> * (1 / 10))))"

section \<open>Auxiliary notions for the proofs\<close>

text \<open>
  A search invocation started at clock \<open>clk\<close> is well timed when every time check but
  its last one passed, and it ends in \<open>Timeout\<close> exactly when the last one failed.
\<close>

definition well_timed :: "(nat \<Rightarrow> real) \<Rightarrow> real \<Rightarrow> nat \<Rightarrow> search_result \<Rightarrow> bool" where
  "well_timed time_left thr clk r =
     (clk \<le> snd r
      \<and> (\<forall>k. clk \<le> k \<and> Suc k < snd r \<longrightarrow> thr \<le> time_left k)
      \<and> ((fst r = Inl Timeout) = (clk < snd r \<and> time_left (snd r - 1) < thr)))"

text \<open>
  What a pruned search with window \<open>(alpha, beta)\<close> may return for a node whose minimax
  value is \<open>v\<close>: the value itself inside the window, a bound on the same side outside.
\<close>

definition fail_soft :: "xreal \<Rightarrow> xreal \<Rightarrow> xreal \<Rightarrow> xreal \<Rightarrow> bool" where
  "fail_soft alpha beta v r = (min v beta \<le> r \<and> r \<le> max v alpha)"

section \<open>A sample board: two knights on a small grid\<close>

text \<open>
  A concrete board for running the agent: each player is a knight, a visited cell can
  not be entered again, and the player to move who has no target has lost. The first
  player is \<open>True\<close>.
\<close>

record knights =
  cols :: int
  rows :: int
  used :: "move list"
  pos_first :: move
  pos_second :: move
  first_to_move :: bool

definition knight_at :: "knights \<Rightarrow> bool \<Rightarrow> move" where
  "knight_at s p = (if p then pos_first s else pos_second s)"

definition knight_targets :: "knights \<Rightarrow> bool \<Rightarrow> move list" where
  "knight_targets s p =
     (let (r, c) = knight_at s p
      in filter (\<lambda>(r', c'). 0 \<le> r' \<and> r' < rows s \<and> 0 \<le> c' \<and> c' < cols s
                              \<and> (r', c') \<notin> set (used s))
           [(r - 2, c - 1), (r - 2, c + 1), (r - 1, c - 2), (r - 1, c + 2),
            (r + 1, c - 2), (r + 1, c + 2), (r + 2, c - 1), (r + 2, c + 1)])"

definition knight_step :: "knights \<Rightarrow> move \<Rightarrow> knights" where
  "knight_step s mv =
     s\<lparr>used := mv # used s,
       pos_first := (if first_to_move s then mv else pos_first s),
       pos_second := (if first_to_move s then pos_second s else mv),
       first_to_move := \<not> first_to_move s\<rparr>"

definition knight_utility :: "knights \<Rightarrow> bool \<Rightarrow> xreal" where
  "knight_utility s p =
     (if knight_targets s (first_to_move s) = []
      then (if p = first_to_move s then NegInf else PosInf)
      else Fin 0)"

definition knight_board :: "(knights, bool) board" where
  "knight_board =
     \<lparr>width = cols, height = rows,
      active_player = first_to_move,
      inactive_player = (\<lambda>s. \<not> first_to_move s),
      get_opponent = (\<lambda>s p. \<not> p),
      get_legal_moves = knight_targets,
      forecast_move = knight_step,
      is_winner = (\<lambda>s p. p = (\<not> first_to_move s) \<and> knight_targets s (first_to_move s) = []),
      is_loser = (\<lambda>s p. p = first_to_move s \<and> knight_targets s (first_to_move s) = []),
      utility = knight_utility,
      get_player_location = knight_at,
      last_player_move = knight_at\<rparr>"

text \<open>Positions on a 3 x 3 board (a corner start, one where the opponent sits on one of
  the two targets, a knight stuck in the centre, an open start), and a board two wide and
  six high.\<close>

definition corner_start :: knights where
  "corner_start =
     \<lparr>cols = 3, rows = 3, used = [(0, 0), (1, 1)],
      pos_first = (0, 0), pos_second = (1, 1), first_to_move = True\<rparr>"

definition one_target :: knights where
  "one_target =
     \<lparr>cols = 3, rows = 3, used = [(0, 0), (2, 1)],
      pos_first = (0, 0), pos_second = (2, 1), first_to_move = True\<rparr>"

definition stuck_centre :: knights where
  "stuck_centre =
     \<lparr>cols = 3, rows = 3, used = [(1, 1), (0, 0)],
      pos_first = (1, 1), pos_second = (0, 0), first_to_move = True\<rparr>"

definition open_start :: knights where
  "open_start =
     \<lparr>cols = 3, rows = 3, used = [(0, 0), (0, 1)],
      pos_first = (0, 0), pos_second = (0, 1), first_to_move = True\<rparr>"

definition tall_board :: knights where
  "tall_board =
     \<lparr>cols = 2, rows = 6, used = [(3, 1), (0, 0)],
      pos_first = (3, 1), pos_second = (0, 0), first_to_move = True\<rparr>"

definition sample_agent :: "string \<Rightarrow> bool \<Rightarrow> (knights, bool) custom_player" where
  "sample_agent meth iter =
     \<lparr>self_id = True, search_depth = 2, score_fn = custom_score knight_board,
      iterative = iter, search_method = meth, TIMER_THRESHOLD = 10\<rparr>"

text \<open>A timer that answers 100 ms for the first \<open>n\<close> calls and 0 ms afterwards.\<close>

definition clock_until :: "nat \<Rightarrow> nat \<Rightarrow> real" where
  "clock_until n k = (if k < n then 100 else 0)"

text \<open>A timer that never runs low.\<close>

definition steady_clock :: "nat \<Rightarrow> real" where
  "steady_clock k = 100"

lemmas knight_defs = knight_board_def knight_targets_def knight_at_def knight_step_def
  knight_utility_def legal_moves_now_def

section \<open>Order facts about scores\<close>

lemma NegInf_least [simp]: "NegInf \<le> x"
  by simp

lemma PosInf_greatest [simp]: "x \<le> PosInf"
  by (cases x) simp_all

lemma PosInf_le_iff [simp]: "PosInf \<le> x \<longleftrightarrow> x = PosInf"
  by (cases x) simp_all

lemma le_NegInf_iff [simp]: "x \<le> NegInf \<longleftrightarrow> x = NegInf"
  by (cases x) simp_all

lemma not_PosInf_less [simp]: "\<not> PosInf < x"
  by (simp add: not_less)

lemma not_less_NegInf [simp]: "\<not> x < NegInf"
  by (simp add: not_less)

lemma less_xreal_simps [simp]:
  "NegInf < Fin a" "NegInf < PosInf" "Fin a < PosInf"
  "(Fin a < Fin b) = (a < b)" "\<not> Fin a < NegInf" "\<not> PosInf < Fin a"
  by (auto simp: less_xreal_def)

lemma NegInf_less_PosInf: "NegInf < PosInf"
  by (simp add: less_xreal_def)

section \<open>The evaluators\<close>

text \<open>
  C6: each of \<open>attacking_score\<close>, \<open>deeper_score\<close> and \<open>custom_score\<close> answers minus
  infinity for a player who has lost and plus infinity for a player who has won, whatever
  the rest of the board says (no move list, location or board size is needed for it). The
  loser test comes first in the code, so "has won" is read as: \<open>is_winner\<close> holds and
  \<open>is_loser\<close> does not.
\<close>

theorem evaluators_terminal_first:
  "(is_loser B game player \<longrightarrow>
      attacking_score B game player = NegInf \<and> deeper_score B game player = NegInf
      \<and> custom_score B game player = NegInf)
   \<and> (is_winner B game player \<and> \<not> is_loser B game player \<longrightarrow>
      attacking_score B game player = PosInf \<and> deeper_score B game player = PosInf
      \<and> custom_score B game player = PosInf)"
  by (simp add: attacking_score_def deeper_score_def custom_score_def)

theorem evaluators_terminal_first_witness:
  "is_loser knight_board stuck_centre True
   \<and> attacking_score knight_board stuck_centre True = NegInf
   \<and> deeper_score knight_board stuck_centre True = NegInf
   \<and> custom_score knight_board stuck_centre True = NegInf
   \<and> is_winner knight_board stuck_centre False \<and> \<not> is_loser knight_board stuck_centre False
   \<and> attacking_score knight_board stuck_centre False = PosInf
   \<and> deeper_score knight_board stuck_centre False = PosInf
   \<and> custom_score knight_board stuck_centre False = PosInf"
proof -
  have l: "is_loser knight_board stuck_centre True"
    by (simp add: knight_defs stuck_centre_def)
  have w: "is_winner knight_board stuck_centre False \<and> \<not> is_loser knight_board stuck_centre False"
    by (simp add: knight_defs stuck_centre_def)
  from evaluators_terminal_first [of knight_board stuck_centre True]
       evaluators_terminal_first [of knight_board stuck_centre False] l w
  show ?thesis by blast
qed

text \<open>
  C7: on a board two wide and six high, with the player on row 3 and column 1, two
  targets for the player and one for the opponent, the specification's formula (row
  against half the height, column against half the width) gives 1, and \<open>custom_score\<close>
  gives 3/5: the code subtracts \<open>width / 2\<close> from the row and \<open>height / 2\<close> from the
  column.
\<close>

theorem custom_score_swaps_axes:
  "\<not> is_loser knight_board tall_board True \<and> \<not> is_winner knight_board tall_board True
   \<and> get_player_location knight_board tall_board True = (3, 1)
   \<and> width knight_board tall_board = 2 \<and> height knight_board tall_board = 6
   \<and> custom_score knight_board tall_board True = Fin (3 / 5)
   \<and> custom_score_spec knight_board tall_board True = Fin 1"
  by (simp add: custom_score_def custom_score_spec_def knight_defs tall_board_def)

section \<open>The base case of the search\<close>

text \<open>
  C5: when the time check passes and the depth is 0 or the utility of the state for the
  agent is not zero, \<open>minimax\<close> and \<open>alphabeta\<close> both return the agent's evaluation of
  the state together with the last move of the inactive player, and the clock has
  advanced by one: the invocation asked for the time once and called no child.
\<close>

theorem minimax_base_case:
  assumes "TIMER_THRESHOLD A \<le> time_left clk"
    and "d = 0 \<or> utility B game (self_id A) \<noteq> Fin 0"
  shows "minimax A B time_left game d mx clk =
           (Inr (score_fn A game (self_id A),
                 last_player_move B game (inactive_player B game)), Suc clk)
         \<and> alphabeta A B time_left game d alpha beta mx clk =
           (Inr (score_fn A game (self_id A),
                 last_player_move B game (inactive_player B game)), Suc clk)"
  using assms by (cases d) auto

theorem minimax_base_case_witness:
  "minimax (sample_agent ''minimax'' True) knight_board (clock_until 1) corner_start 0 True 0
     = (Inr (Fin (17 / 10), (1, 1)), 1)
   \<and> alphabeta (sample_agent ''minimax'' True) knight_board (clock_until 1) stuck_centre 3
       NegInf PosInf True 0 = (Inr (NegInf, (0, 0)), 1)"
proof -
  have t: "TIMER_THRESHOLD (sample_agent ''minimax'' True) \<le> clock_until 1 0"
    by (simp add: sample_agent_def clock_until_def)
  have u: "utility knight_board stuck_centre (self_id (sample_agent ''minimax'' True)) \<noteq> Fin 0"
    by (simp add: knight_defs stuck_centre_def sample_agent_def)
  have s0: "score_fn (sample_agent ''minimax'' True) corner_start True = Fin (17 / 10)"
    by (simp add: sample_agent_def custom_score_def knight_defs corner_start_def)
  have s1: "score_fn (sample_agent ''minimax'' True) stuck_centre True = NegInf"
    by (simp add: sample_agent_def custom_score_def knight_defs stuck_centre_def)
  have l0: "last_player_move knight_board corner_start (inactive_player knight_board corner_start) = (1, 1)"
    by (simp add: knight_defs corner_start_def)
  have l1: "last_player_move knight_board stuck_centre (inactive_player knight_board stuck_centre) = (0, 0)"
    by (simp add: knight_defs stuck_centre_def)
  have i: "self_id (sample_agent ''minimax'' True) = True" by (simp add: sample_agent_def)
  have a: "minimax (sample_agent ''minimax'' True) knight_board (clock_until 1) corner_start 0 True 0
      = (Inr (score_fn (sample_agent ''minimax'' True) corner_start (self_id (sample_agent ''minimax'' True)),
              last_player_move knight_board corner_start (inactive_player knight_board corner_start)), Suc 0)"
    using minimax_base_case [where A = "sample_agent ''minimax'' True" and time_left = "clock_until 1"
        and clk = 0 and d = 0 and B = knight_board and game = corner_start and mx = True] t
    by simp
  have b: "alphabeta (sample_agent ''minimax'' True) knight_board (clock_until 1) stuck_centre 3
        NegInf PosInf True 0
      = (Inr (score_fn (sample_agent ''minimax'' True) stuck_centre (self_id (sample_agent ''minimax'' True)),
              last_player_move knight_board stuck_centre (inactive_player knight_board stuck_centre)), Suc 0)"
    using minimax_base_case [where A = "sample_agent ''minimax'' True" and time_left = "clock_until 1"
        and clk = 0 and d = 3 and B = knight_board and game = stuck_centre and mx = True
        and alpha = NegInf and beta = PosInf] t u
    by simp
  from a b
  show ?thesis by (simp only: s0 s1 l0 l1 i) simp
qed

section \<open>Time checks and the Timeout exception\<close>

lemma well_timed_single:
  "well_timed tm thr clk (res, Suc clk) = ((res = Inl Timeout) = (tm clk < thr))"
  by (auto simp: well_timed_def)

lemma well_timed_seq:
  assumes "well_timed tm thr a (Inr x, b)" and "well_timed tm thr b r"
  shows "well_timed tm thr a r"
proof -
  from assms(1) have ab: "a \<le> b"
    and pre: "\<And>k. a \<le> k \<Longrightarrow> Suc k < b \<Longrightarrow> thr \<le> tm k"
    and lastok: "a < b \<Longrightarrow> thr \<le> tm (b - 1)"
    by (auto simp: well_timed_def)
  from assms(2) have br: "b \<le> snd r"
    and post: "\<And>k. b \<le> k \<Longrightarrow> Suc k < snd r \<Longrightarrow> thr \<le> tm k"
    and fin: "(fst r = Inl Timeout) = (b < snd r \<and> tm (snd r - 1) < thr)"
    by (auto simp: well_timed_def)
  have 1: "a \<le> snd r" using ab br by simp
  have 2: "thr \<le> tm k" if "a \<le> k" "Suc k < snd r" for k
  proof (cases "Suc k < b")
    case True with that pre show ?thesis by simp
  next
    case False
    show ?thesis
    proof (cases "Suc k = b")
      case True
      with that lastok [OF _] show ?thesis by auto
    next
      case False
      with \<open>\<not> Suc k < b\<close> have "b \<le> k" by simp
      with that post show ?thesis by simp
    qed
  qed
  have 3: "(fst r = Inl Timeout) = (a < snd r \<and> tm (snd r - 1) < thr)"
  proof (cases "b < snd r")
    case True with fin ab show ?thesis by auto
  next
    case False
    with br have e: "snd r = b" by simp
    with fin have "fst r \<noteq> Inl Timeout" by simp
    moreover have "\<not> (a < snd r \<and> tm (snd r - 1) < thr)"
      using e lastok by fastforce
    ultimately show ?thesis by simp
  qed
  from 1 2 3 show ?thesis unfolding well_timed_def by blast
qed

lemma minimax_max_loop_timed:
  assumes "\<And>mv c. well_timed tm thr c (child mv c)"
  shows "well_timed tm thr clk (minimax_max_loop child ms bs bm clk)"
proof (induction ms arbitrary: bs bm clk)
  case Nil
  show ?case by (simp add: well_timed_def)
next
  case (Cons mv rest)
  obtain res c1 where ch: "child mv clk = (res, c1)" by (cases "child mv clk")
  have wt: "well_timed tm thr clk (res, c1)" using assms [of clk mv] ch by simp
  show ?case
  proof (cases res)
    case (Inl e)
    with ch wt show ?thesis by simp
  next
    case (Inr p)
    obtain v m where p: "p = (v, m)" by (cases p)
    from wt Inr have w1: "well_timed tm thr clk (Inr p, c1)" by simp
    show ?thesis
      using ch Inr p well_timed_seq [OF w1 Cons.IH]
      by simp
  qed
qed

lemma minimax_min_loop_timed:
  assumes "\<And>mv c. well_timed tm thr c (child mv c)"
  shows "well_timed tm thr clk (minimax_min_loop child ms bs bm clk)"
proof (induction ms arbitrary: bs bm clk)
  case Nil
  show ?case by (simp add: well_timed_def)
next
  case (Cons mv rest)
  obtain res c1 where ch: "child mv clk = (res, c1)" by (cases "child mv clk")
  have wt: "well_timed tm thr clk (res, c1)" using assms [of clk mv] ch by simp
  show ?case
  proof (cases res)
    case (Inl e)
    with ch wt show ?thesis by simp
  next
    case (Inr p)
    obtain v m where p: "p = (v, m)" by (cases p)
    from wt Inr have w1: "well_timed tm thr clk (Inr p, c1)" by simp
    show ?thesis
      using ch Inr p well_timed_seq [OF w1 Cons.IH]
      by simp
  qed
qed

lemma alphabeta_max_loop_timed:
  assumes "\<And>mv a b c. well_timed tm thr c (child mv a b c)"
  shows "well_timed tm thr clk (alphabeta_max_loop child ms alpha beta bs bm clk)"
proof (induction ms arbitrary: alpha beta bs bm clk)
  case Nil
  show ?case by (simp add: well_timed_def)
next
  case (Cons mv rest)
  obtain res c1 where ch: "child mv alpha beta clk = (res, c1)"
    by (cases "child mv alpha beta clk")
  have wt: "well_timed tm thr clk (res, c1)" using assms [of clk mv alpha beta] ch by simp
  show ?case
  proof (cases res)
    case (Inl e)
    with ch wt show ?thesis by simp
  next
    case (Inr p)
    obtain v m where p: "p = (v, m)" by (cases p)
    from wt Inr have w1: "well_timed tm thr clk (Inr p, c1)" by simp
    have w2: "well_timed tm thr clk (Inr q, c1)" for q
      using w1 by (simp add: well_timed_def)
    show ?thesis
      using ch Inr p well_timed_seq [OF w1 Cons.IH] w2
      by (simp add: Let_def)
  qed
qed

lemma alphabeta_min_loop_timed:
  assumes "\<And>mv a b c. well_timed tm thr c (child mv a b c)"
  shows "well_timed tm thr clk (alphabeta_min_loop child ms alpha beta bs bm clk)"
proof (induction ms arbitrary: alpha beta bs bm clk)
  case Nil
  show ?case by (simp add: well_timed_def)
next
  case (Cons mv rest)
  obtain res c1 where ch: "child mv alpha beta clk = (res, c1)"
    by (cases "child mv alpha beta clk")
  have wt: "well_timed tm thr clk (res, c1)" using assms [of clk mv alpha beta] ch by simp
  show ?case
  proof (cases res)
    case (Inl e)
    with ch wt show ?thesis by simp
  next
    case (Inr p)
    obtain v m where p: "p = (v, m)" by (cases p)
    from wt Inr have w1: "well_timed tm thr clk (Inr p, c1)" by simp
    have w2: "well_timed tm thr clk (Inr q, c1)" for q
      using w1 by (simp add: well_timed_def)
    show ?thesis
      using ch Inr p well_timed_seq [OF w1 Cons.IH] w2
      by (simp add: Let_def)
  qed
qed

lemma well_timed_after_check:
  assumes "thr \<le> tm clk" and "well_timed tm thr (Suc clk) r"
  shows "well_timed tm thr clk r \<and> clk < snd r"
proof -
  have "well_timed tm thr clk (Inr x, Suc clk)" for x :: "xreal \<times> move"
    using assms(1) by (simp add: well_timed_single)
  from well_timed_seq [OF this assms(2)] assms(2) show ?thesis
    by (auto simp: well_timed_def)
qed

lemma minimax_timed:
  "well_timed time_left (TIMER_THRESHOLD A) clk (minimax A B time_left game d mx clk)
   \<and> clk < snd (minimax A B time_left game d mx clk)"
proof (induction d arbitrary: game mx clk)
  case 0
  show ?case by (simp add: well_timed_single)
next
  case (Suc d)
  let ?child = "\<lambda>mv. minimax A B time_left (forecast_move B game mv) d (\<not> mx)"
  have ch: "\<And>mv c. well_timed time_left (TIMER_THRESHOLD A) c (?child mv c)"
    using Suc.IH by blast
  show ?case
  proof (cases "time_left clk < TIMER_THRESHOLD A")
    case True
    then show ?thesis by (simp add: well_timed_single)
  next
    case False
    then have ok: "TIMER_THRESHOLD A \<le> time_left clk" by simp
    show ?thesis
    proof (cases "utility B game (self_id A) \<noteq> Fin 0")
      case True
      with False show ?thesis by (simp add: well_timed_single)
    next
      case u: False
      show ?thesis
      proof (cases "legal_moves_now B game")
        case Nil
        with False u show ?thesis by (simp add: well_timed_single)
      next
        case (Cons m0 ms)
        show ?thesis
        proof (cases mx)
          case True
          with False u Cons
            well_timed_after_check [OF ok minimax_max_loop_timed [of time_left "TIMER_THRESHOLD A" ?child "Suc clk" "m0 # ms" NegInf m0, OF ch]]
          show ?thesis by simp
        next
          case mn: False
          with False u Cons
            well_timed_after_check [OF ok minimax_min_loop_timed [of time_left "TIMER_THRESHOLD A" ?child "Suc clk" "m0 # ms" PosInf m0, OF ch]]
          show ?thesis by simp
        qed
      qed
    qed
  qed
qed

lemma alphabeta_timed:
  "well_timed time_left (TIMER_THRESHOLD A) clk (alphabeta A B time_left game d alpha beta mx clk)
   \<and> clk < snd (alphabeta A B time_left game d alpha beta mx clk)"
proof (induction d arbitrary: game alpha beta mx clk)
  case 0
  show ?case by (simp add: well_timed_single)
next
  case (Suc d)
  let ?child = "\<lambda>mv a b. alphabeta A B time_left (forecast_move B game mv) d a b (\<not> mx)"
  have ch: "\<And>mv a b c. well_timed time_left (TIMER_THRESHOLD A) c (?child mv a b c)"
    using Suc.IH by blast
  show ?case
  proof (cases "time_left clk < TIMER_THRESHOLD A")
    case True
    then show ?thesis by (simp add: well_timed_single)
  next
    case False
    then have ok: "TIMER_THRESHOLD A \<le> time_left clk" by simp
    show ?thesis
    proof (cases "utility B game (self_id A) \<noteq> Fin 0")
      case True
      with False show ?thesis by (simp add: well_timed_single)
    next
      case u: False
      show ?thesis
      proof (cases "legal_moves_now B game")
        case Nil
        with False u show ?thesis by (simp add: well_timed_single)
      next
        case (Cons m0 ms)
        show ?thesis
        proof (cases mx)
          case True
          with False u Cons
            well_timed_after_check [OF ok alphabeta_max_loop_timed [of time_left "TIMER_THRESHOLD A" ?child "Suc clk" "m0 # ms" alpha beta NegInf m0, OF ch]]
          show ?thesis by simp
        next
          case mn: False
          with False u Cons
            well_timed_after_check [OF ok alphabeta_min_loop_timed [of time_left "TIMER_THRESHOLD A" ?child "Suc clk" "m0 # ms" alpha beta PosInf m0, OF ch]]
          show ?thesis by simp
        qed
      qed
    qed
  qed
qed

lemma except_Timeout_catches: "except_Timeout raised \<noteq> Inl Timeout"
  by (cases raised rule: except_Timeout.cases) simp_all

lemma get_move_never_Timeout:
  "get_move A B time_left rnd game legal_moves clk = Some (r, c) \<Longrightarrow> r \<noteq> Inl Timeout"
  by (auto simp: get_move_def random_choice_def except_Timeout_catches
      split: if_splits option.splits sum.splits prod.splits)

section \<open>Pruning does not change the result\<close>

lemma fail_soft_refl: "fail_soft a b v v"
  by (simp add: fail_soft_def)

lemma fail_soft_full: "fail_soft NegInf PosInf v r \<Longrightarrow> r = v"
  by (auto simp: fail_soft_def)

text \<open>minimax loops always finish when every child returns.\<close>

lemma minimax_max_loop_returns:
  assumes "\<And>mv c. \<exists>v m k. childM mv c = (Inr (v, m), k)"
  shows "\<exists>V M K. minimax_max_loop childM ms bs bm c = (Inr (V, M), K) \<and> bs \<le> V
                 \<and> (bs = PosInf \<longrightarrow> M = bm)"
proof (induction ms arbitrary: bs bm c)
  case Nil
  show ?case by simp
next
  case (Cons mv rest)
  from assms [of mv c] obtain v m k where ch: "childM mv c = (Inr (v, m), k)" by blast
  show ?case
  proof (cases "v > bs")
    case True
    from Cons.IH [of v mv k] obtain V M K where
      "minimax_max_loop childM rest v mv k = (Inr (V, M), K)" "v \<le> V" by blast
    with ch True show ?thesis by auto
  next
    case False
    from Cons.IH [of bs bm k] obtain V M K where
      "minimax_max_loop childM rest bs bm k = (Inr (V, M), K)" "bs \<le> V" "bs = PosInf \<longrightarrow> M = bm"
      by blast
    with ch False show ?thesis by auto
  qed
qed

lemma minimax_min_loop_returns:
  assumes "\<And>mv c. \<exists>v m k. childM mv c = (Inr (v, m), k)"
  shows "\<exists>V M K. minimax_min_loop childM ms bs bm c = (Inr (V, M), K) \<and> V \<le> bs
                 \<and> (bs = NegInf \<longrightarrow> M = bm)"
proof (induction ms arbitrary: bs bm c)
  case Nil
  show ?case by simp
next
  case (Cons mv rest)
  from assms [of mv c] obtain v m k where ch: "childM mv c = (Inr (v, m), k)" by blast
  show ?case
  proof (cases "v < bs")
    case True
    from Cons.IH [of v mv k] obtain V M K where
      "minimax_min_loop childM rest v mv k = (Inr (V, M), K)" "V \<le> v" by blast
    with ch True show ?thesis by auto
  next
    case False
    from Cons.IH [of bs bm k] obtain V M K where
      "minimax_min_loop childM rest bs bm k = (Inr (V, M), K)" "V \<le> bs" "bs = NegInf \<longrightarrow> M = bm"
      by blast
    with ch False show ?thesis by auto
  qed
qed

lemma max_loop_pruning:
  assumes H: "\<And>mv a b c c'. a < b \<Longrightarrow>
      \<exists>v m k r m' k'. childM mv c = (Inr (v, m), k) \<and> childA mv a b c' = (Inr (r, m'), k')
                      \<and> fail_soft a b v r"
  shows "a < b \<Longrightarrow> bs \<le> bs' \<Longrightarrow> bs' \<le> max a bs \<Longrightarrow> bs' < b \<Longrightarrow>
    \<exists>V M K R M' K'.
       minimax_max_loop childM ms bs bm c = (Inr (V, M), K)
     \<and> alphabeta_max_loop childA ms (max a bs') b bs' bm' c' = (Inr (R, M'), K')
     \<and> fail_soft a b V R
     \<and> (a = NegInf \<and> b = PosInf \<and> bm' = bm \<longrightarrow> M' = M)"
proof (induction ms arbitrary: bs bm bs' bm' c c')
  case Nil
  have "min bs b \<le> bs'" using Nil(2) by (simp add: min.coboundedI1)
  moreover have "bs' \<le> max bs a" using Nil(3) by (simp add: max.commute)
  ultimately show ?case by (simp add: fail_soft_def)
next
  case (Cons mv rest)
  have total: "\<And>mv c. \<exists>v m k. childM mv c = (Inr (v, m), k)"
    using H [of NegInf PosInf] by (metis less_xreal_def less_eq_xreal.simps(1) PosInf_le_iff xreal.distinct(3))
  have win: "max a bs' < b" using Cons.prems by simp
  from H [OF win, of mv c c'] obtain v m k r m' k' where
    cm: "childM mv c = (Inr (v, m), k)" and
    ca: "childA mv (max a bs') b c' = (Inr (r, m'), k')" and
    fs: "fail_soft (max a bs') b v r" by blast
  define bs1 where "bs1 = (if v > bs then v else bs)"
  define bm1 where "bm1 = (if v > bs then mv else bm)"
  define bs1' where "bs1' = (if r > bs' then r else bs')"
  define bm1' where "bm1' = (if r > bs' then mv else bm')"
  have mm_step: "minimax_max_loop childM (mv # rest) bs bm c = minimax_max_loop childM rest bs1 bm1 k"
    using cm by (simp add: bs1_def bm1_def)
  from fs have lo: "min v b \<le> r" and hi: "r \<le> max v (max a bs')"
    by (simp_all add: fail_soft_def)
  show ?case
  proof (cases "bs1' \<ge> b")
    case True
    have ab_step: "alphabeta_max_loop childA (mv # rest) (max a bs') b bs' bm' c'
                   = (Inr (bs1', bm1'), k')"
      using ca True by (simp add: bs1'_def bm1'_def Let_def)
    from True Cons.prems have rb: "b \<le> r" and e: "bs1' = r" and gt: "r > bs'"
      by (auto simp: bs1'_def split: if_splits)
    from hi rb win have rv: "r \<le> v" by (auto simp: max_def split: if_splits)
    from minimax_max_loop_returns [of childM rest bs1 bm1 k, OF total] obtain V M K where
      mm: "minimax_max_loop childM rest bs1 bm1 k = (Inr (V, M), K)" and ge: "bs1 \<le> V"
      and top: "bs1 = PosInf \<longrightarrow> M = bm1" by blast
    have "v \<le> bs1" by (simp add: bs1_def not_less)
    with ge rv have RV: "r \<le> V" by simp
    have f: "fail_soft a b V bs1'"
      using RV rb e by (auto simp: fail_soft_def min_def max_def)
    have mvs: "a = NegInf \<and> b = PosInf \<and> bm' = bm \<longrightarrow> bm1' = M"
    proof
      assume as: "a = NegInf \<and> b = PosInf \<and> bm' = bm"
      with rb have "r = PosInf" by simp
      with rv have vv: "v = PosInf" by simp
      from as Cons.prems have "bs' \<le> bs" by (simp add: max_def)
      with Cons.prems have "bs = bs'" by simp
      with gt \<open>r = PosInf\<close> vv have "v > bs" by simp
      then have "bs1 = PosInf" "bm1 = mv" using vv by (simp_all add: bs1_def bm1_def)
      with top gt show "bm1' = M" by (simp add: bm1'_def)
    qed
    from mm_step mm ab_step f mvs show ?thesis by auto
  next
    case False
    then have nocut: "bs1' < b" by simp
    have ab_step: "alphabeta_max_loop childA (mv # rest) (max a bs') b bs' bm' c'
                   = alphabeta_max_loop childA rest (max a bs1') b bs1' bm1' k'"
    proof -
      have "max (max a bs') bs1' = max a bs1'" by (auto simp: bs1'_def max_def)
      with ca False show ?thesis by (simp add: bs1'_def bm1'_def Let_def)
    qed
    have rlt: "r < b" using nocut by (auto simp: bs1'_def split: if_splits)
    with lo have vr: "v \<le> r" by (auto simp: min_def split: if_splits)
    have i1: "bs1 \<le> bs1'"
      using vr Cons.prems(2) by (auto simp: bs1_def bs1'_def)
    have i2: "bs1' \<le> max a bs1"
      using hi Cons.prems(2,3) by (auto simp: bs1_def bs1'_def max_def split: if_splits)
    from Cons.IH [OF Cons.prems(1) i1 i2 nocut, of bm1 k bm1' k'] obtain V M K R M' K' where
      mm: "minimax_max_loop childM rest bs1 bm1 k = (Inr (V, M), K)" and
      ab: "alphabeta_max_loop childA rest (max a bs1') b bs1' bm1' k' = (Inr (R, M'), K')" and
      f: "fail_soft a b V R" and
      mvs: "a = NegInf \<and> b = PosInf \<and> bm1' = bm1 \<longrightarrow> M' = M" by blast
    have same: "a = NegInf \<and> b = PosInf \<and> bm' = bm \<longrightarrow> bm1' = bm1"
    proof
      assume as: "a = NegInf \<and> b = PosInf \<and> bm' = bm"
      from as Cons.prems have "bs' \<le> bs" by (simp add: max_def)
      with Cons.prems have eq: "bs = bs'" by simp
      from hi as have "r \<le> max v bs'" by (simp add: max_def)
      with vr eq have "(r > bs') = (v > bs)" by (auto simp: max_def split: if_splits)
      with as show "bm1' = bm1" by (simp add: bm1_def bm1'_def)
    qed
    from mm_step mm ab_step ab f mvs same show ?thesis by auto
  qed
qed


lemma min_loop_pruning:
  assumes H: "\<And>mv a b c c'. a < b \<Longrightarrow>
      \<exists>v m k r m' k'. childM mv c = (Inr (v, m), k) \<and> childA mv a b c' = (Inr (r, m'), k')
                      \<and> fail_soft a b v r"
  shows "a < b \<Longrightarrow> bs' \<le> bs \<Longrightarrow> min b bs \<le> bs' \<Longrightarrow> a < bs' \<Longrightarrow>
    \<exists>V M K R M' K'.
       minimax_min_loop childM ms bs bm c = (Inr (V, M), K)
     \<and> alphabeta_min_loop childA ms a (min b bs') bs' bm' c' = (Inr (R, M'), K')
     \<and> fail_soft a b V R
     \<and> (a = NegInf \<and> b = PosInf \<and> bm' = bm \<longrightarrow> M' = M)"
proof (induction ms arbitrary: bs bm bs' bm' c c')
  case Nil
  have "min bs b \<le> bs'" using Nil(3) by (simp add: min.commute)
  moreover have "bs' \<le> max bs a" using Nil(2) by (simp add: max.coboundedI1)
  ultimately show ?case by (simp add: fail_soft_def)
next
  case (Cons mv rest)
  have total: "\<And>mv c. \<exists>v m k. childM mv c = (Inr (v, m), k)"
    using H [of NegInf PosInf] by (metis less_xreal_def less_eq_xreal.simps(1) PosInf_le_iff xreal.distinct(3))
  have win: "a < min b bs'" using Cons.prems by simp
  from H [OF win, of mv c c'] obtain v m k r m' k' where
    cm: "childM mv c = (Inr (v, m), k)" and
    ca: "childA mv a (min b bs') c' = (Inr (r, m'), k')" and
    fs: "fail_soft a (min b bs') v r" by blast
  define bs1 where "bs1 = (if v < bs then v else bs)"
  define bm1 where "bm1 = (if v < bs then mv else bm)"
  define bs1' where "bs1' = (if r < bs' then r else bs')"
  define bm1' where "bm1' = (if r < bs' then mv else bm')"
  have mm_step: "minimax_min_loop childM (mv # rest) bs bm c = minimax_min_loop childM rest bs1 bm1 k"
    using cm by (simp add: bs1_def bm1_def)
  from fs have lo: "min v (min b bs') \<le> r" and hi: "r \<le> max v a"
    by (simp_all add: fail_soft_def)
  show ?case
  proof (cases "bs1' \<le> a")
    case True
    have ab_step: "alphabeta_min_loop childA (mv # rest) a (min b bs') bs' bm' c'
                   = (Inr (bs1', bm1'), k')"
      using ca True by (simp add: bs1'_def bm1'_def Let_def)
    from True Cons.prems have ra: "r \<le> a" and e: "bs1' = r" and lt: "r < bs'"
      by (auto simp: bs1'_def split: if_splits)
    from lo ra win have vr: "v \<le> r" by (auto simp: min_def split: if_splits)
    from minimax_min_loop_returns [of childM rest bs1 bm1 k, OF total] obtain V M K where
      mm: "minimax_min_loop childM rest bs1 bm1 k = (Inr (V, M), K)" and le: "V \<le> bs1"
      and bot: "bs1 = NegInf \<longrightarrow> M = bm1" by blast
    have "bs1 \<le> v" by (simp add: bs1_def not_less)
    with le vr have VR: "V \<le> r" by simp
    have f: "fail_soft a b V bs1'"
      using VR ra e by (auto simp: fail_soft_def min_def max_def)
    have mvs: "a = NegInf \<and> b = PosInf \<and> bm' = bm \<longrightarrow> bm1' = M"
    proof
      assume as: "a = NegInf \<and> b = PosInf \<and> bm' = bm"
      with ra have "r = NegInf" by simp
      with vr have vv: "v = NegInf" by simp
      from as Cons.prems have "bs \<le> bs'" by (simp add: min_def)
      with Cons.prems have "bs = bs'" by simp
      with lt \<open>r = NegInf\<close> vv have "v < bs" by simp
      then have "bs1 = NegInf" "bm1 = mv" using vv by (simp_all add: bs1_def bm1_def)
      with bot lt show "bm1' = M" by (simp add: bm1'_def)
    qed
    from mm_step mm ab_step f mvs show ?thesis by auto
  next
    case False
    then have nocut: "a < bs1'" by simp
    have ab_step: "alphabeta_min_loop childA (mv # rest) a (min b bs') bs' bm' c'
                   = alphabeta_min_loop childA rest a (min b bs1') bs1' bm1' k'"
    proof -
      have "min (min b bs') bs1' = min b bs1'" by (auto simp: bs1'_def min_def)
      with ca False show ?thesis by (simp add: bs1'_def bm1'_def Let_def)
    qed
    have rgt: "a < r" using nocut by (auto simp: bs1'_def split: if_splits)
    with hi have rv: "r \<le> v" by (auto simp: max_def split: if_splits)
    have i1: "bs1' \<le> bs1"
      using rv Cons.prems(2) by (auto simp: bs1_def bs1'_def)
    have i2: "min b bs1 \<le> bs1'"
      using lo Cons.prems(2,3) by (auto simp: bs1_def bs1'_def min_def split: if_splits)
    from Cons.IH [OF Cons.prems(1) i1 i2 nocut, of bm1 k bm1' k'] obtain V M K R M' K' where
      mm: "minimax_min_loop childM rest bs1 bm1 k = (Inr (V, M), K)" and
      ab: "alphabeta_min_loop childA rest a (min b bs1') bs1' bm1' k' = (Inr (R, M'), K')" and
      f: "fail_soft a b V R" and
      mvs: "a = NegInf \<and> b = PosInf \<and> bm1' = bm1 \<longrightarrow> M' = M" by blast
    have same: "a = NegInf \<and> b = PosInf \<and> bm' = bm \<longrightarrow> bm1' = bm1"
    proof
      assume as: "a = NegInf \<and> b = PosInf \<and> bm' = bm"
      from as Cons.prems have "bs \<le> bs'" by (simp add: min_def)
      with Cons.prems have eq: "bs = bs'" by simp
      from lo as have "min v bs' \<le> r" by (simp add: min_def)
      with rv eq have "(r < bs') = (v < bs)" by (auto simp: min_def split: if_splits)
      with as show "bm1' = bm1" by (simp add: bm1_def bm1'_def)
    qed
    from mm_step mm ab_step ab f mvs same show ?thesis by auto
  qed
qed

lemma alphabeta_fail_soft:
  assumes T: "\<And>k. TIMER_THRESHOLD A \<le> time_left k"
    and W: "\<And>g. utility B g (self_id A) = Fin 0 \<Longrightarrow> legal_moves_now B g \<noteq> []"
  shows "alpha < beta \<Longrightarrow>
    \<exists>v m k r m' k'.
       minimax A B time_left game d mx c = (Inr (v, m), k)
     \<and> alphabeta A B time_left game d alpha beta mx c' = (Inr (r, m'), k')
     \<and> fail_soft alpha beta v r
     \<and> (alpha = NegInf \<and> beta = PosInf \<longrightarrow> m' = m)"
proof (induction d arbitrary: game mx alpha beta c c')
  case 0
  have "\<not> time_left c < TIMER_THRESHOLD A" "\<not> time_left c' < TIMER_THRESHOLD A"
    using T by (simp_all add: not_less)
  then show ?case by (simp add: fail_soft_refl)
next
  case (Suc d)
  have t: "\<not> time_left c < TIMER_THRESHOLD A" "\<not> time_left c' < TIMER_THRESHOLD A"
    using T by (simp_all add: not_less)
  let ?childM = "\<lambda>mv. minimax A B time_left (forecast_move B game mv) d (\<not> mx)"
  let ?childA = "\<lambda>mv a b. alphabeta A B time_left (forecast_move B game mv) d a b (\<not> mx)"
  have H: "\<And>mv a b c c'. a < b \<Longrightarrow>
      \<exists>v m k r m' k'. ?childM mv c = (Inr (v, m), k) \<and> ?childA mv a b c' = (Inr (r, m'), k')
                      \<and> fail_soft a b v r"
    using Suc.IH by blast
  show ?case
  proof (cases "utility B game (self_id A) \<noteq> Fin 0")
    case True
    with t show ?thesis by (simp add: fail_soft_refl)
  next
    case False
    then have u: "utility B game (self_id A) = Fin 0" by simp
    from W [OF u] obtain m0 ms where ms: "legal_moves_now B game = m0 # ms"
      by (cases "legal_moves_now B game") auto
    show ?thesis
    proof (cases mx)
      case True
      have pre: "NegInf \<le> (NegInf::xreal)" "NegInf \<le> max alpha NegInf" "NegInf < beta"
        using Suc.prems by (auto simp: less_xreal_def)
      from max_loop_pruning [of ?childM ?childA alpha beta NegInf NegInf "m0 # ms" m0 "Suc c" m0 "Suc c'",
          OF H Suc.prems pre]
      obtain V M K R M' K' where
        "minimax_max_loop ?childM (m0 # ms) NegInf m0 (Suc c) = (Inr (V, M), K)"
        "alphabeta_max_loop ?childA (m0 # ms) (max alpha NegInf) beta NegInf m0 (Suc c') = (Inr (R, M'), K')"
        "fail_soft alpha beta V R" "alpha = NegInf \<and> beta = PosInf \<and> m0 = m0 \<longrightarrow> M' = M"
        by blast
      moreover have "max alpha NegInf = alpha" by (simp add: max_def)
      ultimately show ?thesis using t u ms True by simp
    next
      case mn: False
      have pre: "PosInf \<le> (PosInf::xreal)" "min beta PosInf \<le> PosInf" "alpha < PosInf"
        using Suc.prems by (auto simp: less_xreal_def)
      from min_loop_pruning [of ?childM ?childA alpha beta PosInf PosInf "m0 # ms" m0 "Suc c" m0 "Suc c'",
          OF H Suc.prems pre]
      obtain V M K R M' K' where
        "minimax_min_loop ?childM (m0 # ms) PosInf m0 (Suc c) = (Inr (V, M), K)"
        "alphabeta_min_loop ?childA (m0 # ms) alpha (min beta PosInf) PosInf m0 (Suc c') = (Inr (R, M'), K')"
        "fail_soft alpha beta V R" "alpha = NegInf \<and> beta = PosInf \<and> m0 = m0 \<longrightarrow> M' = M"
        by blast
      moreover have "min beta PosInf = beta" by (simp add: min_def)
      ultimately show ?thesis using t u ms mn by simp
    qed
  qed
qed
text \<open>
  C2: when the timer never reads below the threshold, and every state whose utility for
  the agent is zero has a legal move (the board's own invariant: zero utility means the
  game goes on), \<open>alphabeta\<close> started with the window from minus to plus infinity
  returns a pair, \<open>minimax\<close> returns a pair, and the two pairs are the same score and the
  same move, at every depth, for either value of \<open>maximizing_player\<close> and any evaluator.
  The two clocks may differ: pruning changes the number of invocations only.
\<close>

theorem alphabeta_equals_minimax:
  assumes "\<forall>k. TIMER_THRESHOLD A \<le> time_left k"
    and "\<forall>g. utility B g (self_id A) = Fin 0 \<longrightarrow> legal_moves_now B g \<noteq> []"
  shows "\<exists>score mv. fst (minimax A B time_left game d mx clk) = Inr (score, mv)
                   \<and> fst (alphabeta A B time_left game d NegInf PosInf mx clk') = Inr (score, mv)"
proof -
  from alphabeta_fail_soft [of A time_left B NegInf PosInf game d mx clk clk'] assms
    NegInf_less_PosInf
  obtain v m k r m' k' where
    "minimax A B time_left game d mx clk = (Inr (v, m), k)"
    "alphabeta A B time_left game d NegInf PosInf mx clk' = (Inr (r, m'), k')"
    "fail_soft NegInf PosInf v r" "m' = m" by blast
  then show ?thesis using fail_soft_full by auto
qed

theorem alphabeta_equals_minimax_witness:
  "fst (minimax (sample_agent ''minimax'' False) knight_board steady_clock open_start 3 True 0)
     = Inr (Fin (- (1 / 5)), (2, 1))
   \<and> fst (alphabeta (sample_agent ''minimax'' False) knight_board steady_clock open_start 3
            NegInf PosInf True 0)
     = Inr (Fin (- (1 / 5)), (2, 1))"
proof -
  have t: "\<forall>k. TIMER_THRESHOLD (sample_agent ''minimax'' False) \<le> steady_clock k"
    by (simp add: sample_agent_def steady_clock_def)
  have w: "\<forall>g. utility knight_board g (self_id (sample_agent ''minimax'' False)) = Fin 0
             \<longrightarrow> legal_moves_now knight_board g \<noteq> []"
    by (simp add: knight_board_def knight_utility_def legal_moves_now_def sample_agent_def)
  have m: "minimax (sample_agent ''minimax'' False) knight_board steady_clock open_start 3 True 0
           = (Inr (Fin (- (1 / 5)), (2, 1)), 10)"
    by (simp add: eval_nat_numeral knight_defs open_start_def sample_agent_def steady_clock_def
        custom_score_def)
  from alphabeta_equals_minimax [OF t w, of open_start 3 True 0 0] m
  show ?thesis by auto
qed

section \<open>get_move\<close>

text \<open>
  C8: with an empty \<open>legal_moves\<close> argument \<open>get_move\<close> returns \<open>(-1, -1)\<close>, as a
  value and not as an exception, and the clock is untouched: no search was started, since
  every search invocation asks for the time.
\<close>

theorem get_move_no_moves:
  "get_move A B time_left rnd game [] clk = Some (Inr (-1, -1), clk)"
  by (simp add: get_move_def)

text \<open>
  C10: the emptiness test reads the \<open>legal_moves\<close> argument, the fallback move is drawn
  from \<open>game.get_legal_moves()\<close>. When the argument is not empty and the board lists no
  move, \<open>random.choice\<close> raises \<open>IndexError\<close> before the \<open>try\<close> block, and the
  exception leaves \<open>get_move\<close>.
\<close>

theorem get_move_fallback_IndexError:
  assumes "legal_moves \<noteq> []" and "legal_moves_now B game = []"
  shows "get_move A B time_left rnd game legal_moves clk = Some (Inl IndexError, clk)"
  using assms by (simp add: get_move_def random_choice_def)

theorem get_move_fallback_IndexError_witness:
  "get_move (sample_agent ''minimax'' True) knight_board (clock_until 9) 0 stuck_centre [(0, 2)] 0
     = Some (Inl IndexError, 0)"
proof -
  have a: "[(0, 2)] \<noteq> ([] :: move list)" by simp
  have b: "legal_moves_now knight_board stuck_centre = []"
    by (simp add: knight_defs stuck_centre_def)
  show ?thesis by (rule get_move_fallback_IndexError [OF a b])
qed


lemma iterative_deepening_resume:
  "after_completed_depths A B time_left game n fallback clk = Some (adopted, c) \<Longrightarrow>
   iterative_deepening A B time_left game 0 fallback clk
     = iterative_deepening A B time_left game n adopted c"
proof (induction n arbitrary: adopted c)
  case 0
  then show ?case by simp
next
  case (Suc n)
  from Suc.prems obtain prev c0 where
    p: "after_completed_depths A B time_left game n fallback clk = Some (prev, c0)"
    and r: "run_search A B time_left game n prev c0 = (Inr adopted, c)"
    by (auto split: option.splits prod.splits sum.splits)
  have "iterative_deepening A B time_left game n prev c0
        = iterative_deepening A B time_left game (Suc n) adopted c"
    by (subst iterative_deepening.simps) (simp add: r)
  with Suc.IH [OF p] show ?case by simp
qed


text \<open>
  C1: \<open>get_move\<close> with iterative deepening on a 3 x 3 board: the legal moves are
  \<open>(1, 2)\<close> and \<open>(2, 1)\<close>, the timer passes its first check and fails the second. The
  depth-0 search returns the opponent's last move \<open>(0, 1)\<close>, the loop adopts it, the
  depth-1 search times out, and \<open>get_move\<close> returns \<open>(0, 1)\<close>, which is not a legal move.
\<close>

theorem get_move_returns_illegal_move:
  "legal_moves_now knight_board open_start = [(1, 2), (2, 1)]
   \<and> get_move (sample_agent ''minimax'' True) knight_board (clock_until 1) 0 open_start
       [(1, 2), (2, 1)] 0 = Some (Inr (0, 1), 2)
   \<and> (0, 1) \<notin> set [(1, 2), (2, 1) :: move]"
proof -
  let ?A = "sample_agent ''minimax'' True"
  have moves: "legal_moves_now knight_board open_start = [(1, 2), (2, 1)]"
    by (simp add: knight_defs open_start_def)
  have depth0: "run_search ?A knight_board (clock_until 1) open_start 0 (1, 2) 0
                = (Inr (0, 1), 1)"
    by (simp add: run_search_def knight_defs open_start_def sample_agent_def clock_until_def)
  have depth1: "run_search ?A knight_board (clock_until 1) open_start (0 + 1) (0, 1) 1
                = (Inl (Timeout, (0, 1)), 2)"
    by (simp add: run_search_def sample_agent_def clock_until_def)
  have "iterative_deepening ?A knight_board (clock_until 1) open_start (0 + 1) (0, 1) 1
        = Some ((Timeout, (0, 1)), 2)"
    by (subst iterative_deepening.simps) (simp only: depth1 prod.case sum.case)
  then have "iterative_deepening ?A knight_board (clock_until 1) open_start 0 (1, 2) 0
        = Some ((Timeout, (0, 1)), 2)"
    by (subst iterative_deepening.simps) (simp only: depth0 prod.case sum.case)
  then have "get_move ?A knight_board (clock_until 1) 0 open_start [(1, 2), (2, 1)] 0
        = Some (Inr (0, 1), 2)"
    by (simp add: get_move_def random_choice_def moves sample_agent_def)
  with moves show ?thesis by simp
qed

text \<open>
  C9: the same run after the two opening placements \<open>(0, 0)\<close> and \<open>(2, 1)\<close>, where
  the player to move has the single legal move \<open>(1, 2)\<close>, this time with \<open>alphabeta\<close>:
  \<open>get_move\<close> returns \<open>(2, 1)\<close>, the cell of the opponent, and not the one entry of
  \<open>legal_moves\<close>.
\<close>

theorem get_move_single_move_not_returned:
  "legal_moves_now knight_board one_target = [(1, 2)]
   \<and> get_move (sample_agent ''alphabeta'' True) knight_board (clock_until 1) 0 one_target
       [(1, 2)] 0 = Some (Inr (2, 1), 2)"
proof -
  let ?A = "sample_agent ''alphabeta'' True"
  have moves: "legal_moves_now knight_board one_target = [(1, 2)]"
    by (simp add: knight_defs one_target_def)
  have depth0: "run_search ?A knight_board (clock_until 1) one_target 0 (1, 2) 0
                = (Inr (2, 1), 1)"
    by (simp add: run_search_def knight_defs one_target_def sample_agent_def clock_until_def)
  have depth1: "run_search ?A knight_board (clock_until 1) one_target (0 + 1) (2, 1) 1
                = (Inl (Timeout, (2, 1)), 2)"
    by (simp add: run_search_def sample_agent_def clock_until_def)
  have "iterative_deepening ?A knight_board (clock_until 1) one_target (0 + 1) (2, 1) 1
        = Some ((Timeout, (2, 1)), 2)"
    by (subst iterative_deepening.simps) (simp only: depth1 prod.case sum.case)
  then have "iterative_deepening ?A knight_board (clock_until 1) one_target 0 (1, 2) 0
        = Some ((Timeout, (2, 1)), 2)"
    by (subst iterative_deepening.simps) (simp only: depth0 prod.case sum.case)
  then have "get_move ?A knight_board (clock_until 1) 0 one_target [(1, 2)] 0
        = Some (Inr (2, 1), 2)"
    by (simp add: get_move_def random_choice_def moves sample_agent_def)
  with moves show ?thesis by simp
qed

lemma run_search_Timeout:
  assumes "search_method A = ''minimax''
             \<and> minimax A B time_left game n True c = (Inl Timeout, c')
           \<or> search_method A = ''alphabeta''
             \<and> alphabeta A B time_left game n NegInf PosInf True c = (Inl Timeout, c')"
  shows "run_search A B time_left game n best_move c = (Inl (Timeout, best_move), c')"
  using assms by (auto simp: run_search_def)

lemma get_move_fixed_depth_Timeout:
  assumes "\<not> iterative A" and "legal_moves \<noteq> []"
    and "random_choice rnd (legal_moves_now B game) = Inr fallback"
    and "run_search A B time_left game (search_depth A) fallback clk
           = (Inl (Timeout, fallback), c')"
  shows "get_move A B time_left rnd game legal_moves clk = Some (Inr fallback, c')"
  using assms by (simp add: get_move_def)

lemma get_move_iterative_Timeout:
  assumes "iterative A" and "legal_moves \<noteq> []"
    and "random_choice rnd (legal_moves_now B game) = Inr fallback"
    and "after_completed_depths A B time_left game n fallback clk = Some (adopted, c)"
    and "run_search A B time_left game n adopted c = (Inl (Timeout, adopted), c')"
  shows "get_move A B time_left rnd game legal_moves clk = Some (Inr adopted, c')"
proof -
  have "iterative_deepening A B time_left game n adopted c = Some ((Timeout, adopted), c')"
    by (subst iterative_deepening.simps) (simp add: assms(5))
  with iterative_deepening_resume [OF assms(4)]
  have "iterative_deepening A B time_left game 0 fallback clk = Some ((Timeout, adopted), c')"
    by simp
  then show ?thesis using assms(1,2,3) by (simp add: get_move_def)
qed

text \<open>
  C4: (1) an invocation of \<open>minimax\<close> or \<open>alphabeta\<close> whose time check reads below the
  threshold raises \<open>Timeout\<close> after that single check, before any child is called;
  (2) an invocation started at clock \<open>clk\<close> and ended at \<open>clk'\<close> made the checks
  \<open>clk, ..., clk' - 1\<close>: all but the last passed, and it ends in \<open>Timeout\<close> exactly when
  the last one read below the threshold, so the exception of an inner frame ends every
  outer frame at once, unchanged and with no further check; (3) when the search that
  \<open>get_move\<close> runs raises \<open>Timeout\<close>, \<open>get_move\<close> returns, and what it returns is the
  move known good at that moment: in fixed-depth mode (one search at \<open>search_depth\<close>) the
  fallback drawn before the search, with iterative deepening the move adopted after the
  depths \<open>0, ..., n - 1\<close> that returned before depth \<open>n\<close> was aborted; (4) whenever
  \<open>get_move\<close> ends, it does not end in \<open>Timeout\<close>.
\<close>

theorem timeout_raised_and_caught:
  "(time_left clk < TIMER_THRESHOLD A \<longrightarrow>
      minimax A B time_left game d mx clk = (Inl Timeout, Suc clk)
      \<and> alphabeta A B time_left game d alpha beta mx clk = (Inl Timeout, Suc clk))
   \<and> (\<forall>res clk'.
        minimax A B time_left game d mx clk = (res, clk')
        \<or> alphabeta A B time_left game d alpha beta mx clk = (res, clk') \<longrightarrow>
          clk < clk'
          \<and> (\<forall>k. clk \<le> k \<and> Suc k < clk' \<longrightarrow> TIMER_THRESHOLD A \<le> time_left k)
          \<and> ((res = Inl Timeout) = (time_left (clk' - 1) < TIMER_THRESHOLD A)))
   \<and> (\<forall>n fallback adopted c c'.
        legal_moves \<noteq> []
        \<and> random_choice rnd (legal_moves_now B game) = Inr fallback
        \<and> (if iterative A
            then after_completed_depths A B time_left game n fallback clk = Some (adopted, c)
            else n = search_depth A \<and> adopted = fallback \<and> c = clk)
        \<and> (search_method A = ''minimax''
              \<and> minimax A B time_left game n True c = (Inl Timeout, c')
            \<or> search_method A = ''alphabeta''
              \<and> alphabeta A B time_left game n NegInf PosInf True c = (Inl Timeout, c')) \<longrightarrow>
          get_move A B time_left rnd game legal_moves clk = Some (Inr adopted, c'))
   \<and> (\<forall>r c. get_move A B time_left rnd game legal_moves clk = Some (r, c) \<longrightarrow>
          r \<noteq> Inl Timeout)"
proof -
  have 1: "time_left clk < TIMER_THRESHOLD A \<longrightarrow>
      minimax A B time_left game d mx clk = (Inl Timeout, Suc clk)
      \<and> alphabeta A B time_left game d alpha beta mx clk = (Inl Timeout, Suc clk)"
    by (cases d) simp_all
  have 2: "clk < clk'
          \<and> (\<forall>k. clk \<le> k \<and> Suc k < clk' \<longrightarrow> TIMER_THRESHOLD A \<le> time_left k)
          \<and> ((res = Inl Timeout) = (time_left (clk' - 1) < TIMER_THRESHOLD A))"
    if "minimax A B time_left game d mx clk = (res, clk')
        \<or> alphabeta A B time_left game d alpha beta mx clk = (res, clk')" for res clk'
  proof -
    from that minimax_timed [of time_left A clk B game d mx]
      alphabeta_timed [of time_left A clk B game d alpha beta mx]
    have "well_timed time_left (TIMER_THRESHOLD A) clk (res, clk') \<and> clk < clk'"
      by auto
    then show ?thesis by (simp add: well_timed_def)
  qed
  have 3: "get_move A B time_left rnd game legal_moves clk = Some (Inr adopted, c')"
    if h: "legal_moves \<noteq> []
        \<and> random_choice rnd (legal_moves_now B game) = Inr fallback
        \<and> (if iterative A
            then after_completed_depths A B time_left game n fallback clk = Some (adopted, c)
            else n = search_depth A \<and> adopted = fallback \<and> c = clk)
        \<and> (search_method A = ''minimax''
              \<and> minimax A B time_left game n True c = (Inl Timeout, c')
            \<or> search_method A = ''alphabeta''
              \<and> alphabeta A B time_left game n NegInf PosInf True c = (Inl Timeout, c'))"
    for n fallback adopted c c'
  proof -
    from h have ne: "legal_moves \<noteq> []"
      and fb: "random_choice rnd (legal_moves_now B game) = Inr fallback"
      and st: "if iterative A
            then after_completed_depths A B time_left game n fallback clk = Some (adopted, c)
            else n = search_depth A \<and> adopted = fallback \<and> c = clk"
      and to: "search_method A = ''minimax''
              \<and> minimax A B time_left game n True c = (Inl Timeout, c')
            \<or> search_method A = ''alphabeta''
              \<and> alphabeta A B time_left game n NegInf PosInf True c = (Inl Timeout, c')"
      by simp_all
    have rs: "run_search A B time_left game n adopted c = (Inl (Timeout, adopted), c')"
      using to by (rule run_search_Timeout)
    show ?thesis
    proof (cases "iterative A")
      case True
      with st have "after_completed_depths A B time_left game n fallback clk = Some (adopted, c)"
        by simp
      from get_move_iterative_Timeout [OF True ne fb this rs] show ?thesis .
    next
      case False
      with st have e: "n = search_depth A" "adopted = fallback" "c = clk" by simp_all
      from rs e have "run_search A B time_left game (search_depth A) fallback clk
           = (Inl (Timeout, fallback), c')" by simp
      from get_move_fixed_depth_Timeout [OF False ne fb this] e show ?thesis by simp
    qed
  qed
  have 4: "\<forall>r c. get_move A B time_left rnd game legal_moves clk = Some (r, c) \<longrightarrow>
          r \<noteq> Inl Timeout"
    by (intro allI impI) (rule get_move_never_Timeout)
  have all2: "\<forall>res clk'.
        minimax A B time_left game d mx clk = (res, clk')
        \<or> alphabeta A B time_left game d alpha beta mx clk = (res, clk') \<longrightarrow>
          clk < clk'
          \<and> (\<forall>k. clk \<le> k \<and> Suc k < clk' \<longrightarrow> TIMER_THRESHOLD A \<le> time_left k)
          \<and> ((res = Inl Timeout) = (time_left (clk' - 1) < TIMER_THRESHOLD A))"
    by (intro allI impI) (rule 2)
  have all3: "\<forall>n fallback adopted c c'.
        legal_moves \<noteq> []
        \<and> random_choice rnd (legal_moves_now B game) = Inr fallback
        \<and> (if iterative A
            then after_completed_depths A B time_left game n fallback clk = Some (adopted, c)
            else n = search_depth A \<and> adopted = fallback \<and> c = clk)
        \<and> (search_method A = ''minimax''
              \<and> minimax A B time_left game n True c = (Inl Timeout, c')
            \<or> search_method A = ''alphabeta''
              \<and> alphabeta A B time_left game n NegInf PosInf True c = (Inl Timeout, c')) \<longrightarrow>
          get_move A B time_left rnd game legal_moves clk = Some (Inr adopted, c')"
    by (intro allI impI) (rule 3)
  show ?thesis by (rule conjI [OF 1 conjI [OF all2 conjI [OF all3 4]]])
qed

theorem timeout_raised_and_caught_witness:
  "minimax (sample_agent ''minimax'' False) knight_board (clock_until 2) open_start 1 False 2
     = (Inl Timeout, 3)
   \<and> minimax (sample_agent ''minimax'' False) knight_board (clock_until 2) open_start 2 True 0
     = (Inl Timeout, 3)
   \<and> TIMER_THRESHOLD (sample_agent ''minimax'' False) \<le> clock_until 2 0
   \<and> clock_until 2 2 < TIMER_THRESHOLD (sample_agent ''minimax'' False)
   \<and> get_move (sample_agent ''minimax'' False) knight_board (clock_until 2) 0 open_start
       [(1, 2), (2, 1)] 0 = Some (Inr (1, 2), 3)
   \<and> alphabeta (sample_agent ''alphabeta'' True) knight_board (clock_until 4) open_start 2
       NegInf PosInf True 4 = (Inl Timeout, 5)
   \<and> get_move (sample_agent ''alphabeta'' True) knight_board (clock_until 4) 1 open_start
       [(1, 2), (2, 1)] 0 = Some (Inr (1, 2), 5)"
proof -
  let ?A = "sample_agent ''minimax'' False"
  let ?I = "sample_agent ''alphabeta'' True"
  have low: "clock_until 2 2 < TIMER_THRESHOLD ?A"
    by (simp add: sample_agent_def clock_until_def)
  have run: "minimax ?A knight_board (clock_until 2) open_start 2 True 0 = (Inl Timeout, 3)"
    by (simp add: eval_nat_numeral knight_defs open_start_def sample_agent_def clock_until_def
        custom_score_def)
  have ne: "[(1, 2), (2, 1)] \<noteq> ([] :: move list)" by simp
  have fb0: "random_choice 0 (legal_moves_now knight_board open_start) = Inr (1, 2)"
    by (simp add: random_choice_def knight_defs open_start_def)
  have fb1: "random_choice 1 (legal_moves_now knight_board open_start) = Inr (2, 1)"
    by (simp add: random_choice_def knight_defs open_start_def)
  have fixed: "\<not> iterative ?A" "search_depth ?A = 2" "search_method ?A = ''minimax''"
    by (simp_all add: sample_agent_def)
  have iter: "iterative ?I" "search_method ?I = ''alphabeta''"
    by (simp_all add: sample_agent_def)
  have prior: "after_completed_depths ?I knight_board (clock_until 4) open_start 2 (2, 1) 0
              = Some ((1, 2), 4)"
    by (simp add: eval_nat_numeral run_search_def knight_defs open_start_def sample_agent_def
        clock_until_def custom_score_def)
  have low4: "clock_until 4 4 < TIMER_THRESHOLD ?I"
    by (simp add: sample_agent_def clock_until_def)
  note inner = timeout_raised_and_caught [where time_left = "clock_until 2" and clk = 2
      and A = ?A and B = knight_board and game = open_start and d = 1 and mx = False]
  note outer = timeout_raised_and_caught [where time_left = "clock_until 2" and clk = 0
      and A = ?A and B = knight_board and game = open_start and d = 2 and mx = True
      and alpha = NegInf and beta = PosInf
      and rnd = 0 and legal_moves = "[(1, 2), (2, 1)]"]
  note at4 = timeout_raised_and_caught [where time_left = "clock_until 4" and clk = 4
      and A = ?I and B = knight_board and game = open_start and d = 2 and mx = True
      and alpha = NegInf and beta = PosInf]
  note deep = timeout_raised_and_caught [where time_left = "clock_until 4" and clk = 0
      and A = ?I and B = knight_board and game = open_start and d = 0 and mx = True
      and alpha = NegInf and beta = PosInf
      and rnd = 1 and legal_moves = "[(1, 2), (2, 1)]"]
  from inner low
  have a: "minimax ?A knight_board (clock_until 2) open_start 1 False 2 = (Inl Timeout, 3)"
    by simp
  from outer run
  have b: "\<forall>k. 0 \<le> k \<and> Suc k < 3 \<longrightarrow> TIMER_THRESHOLD ?A \<le> clock_until 2 k"
    by blast
  then have c: "TIMER_THRESHOLD ?A \<le> clock_until 2 0" by simp
  from outer [THEN conjunct2, THEN conjunct2, THEN conjunct1, rule_format,
      where n = 2 and fallback = "(1, 2)" and adopted = "(1, 2)" and c = 0 and c' = 3]
    ne fb0 fixed run
  have gm: "get_move ?A knight_board (clock_until 2) 0 open_start [(1, 2), (2, 1)] 0
            = Some (Inr (1, 2), 3)"
    by simp
  from at4 low4
  have ab: "alphabeta ?I knight_board (clock_until 4) open_start 2 NegInf PosInf True 4
            = (Inl Timeout, 5)"
    by simp
  from deep [THEN conjunct2, THEN conjunct2, THEN conjunct1, rule_format,
      where n = 2 and fallback = "(2, 1)" and adopted = "(1, 2)" and c = 4 and c' = 5]
    ne fb1 iter prior ab
  have gi: "get_move ?I knight_board (clock_until 4) 1 open_start [(1, 2), (2, 1)] 0
            = Some (Inr (1, 2), 5)"
    by simp
  from a run c low gm ab gi show ?thesis by simp
qed

end
